theory Spec2Isabelle
  imports Main "HOL-Library.Char_ord" "HOL-Library.List_Lexorder" "HOL-Library.Multiset"
begin

section \<open>The genealogical records read by the gramplet\<close>

text \<open>
  \<^verbatim>\<open>deepgallery.py\<close> reads the host database through accessor methods only. Each record
  type below carries exactly the accessors the gramplet calls: \<^verbatim>\<open>get_media_list\<close>,
  \<^verbatim>\<open>get_citation_list\<close>, \<^verbatim>\<open>get_event_ref_list\<close>, \<^verbatim>\<open>get_primary_name\<close>,
  \<^verbatim>\<open>get_alternate_names\<close>, \<^verbatim>\<open>get_family_handle_list\<close>, \<^verbatim>\<open>get_reference_handle\<close>,
  \<^verbatim>\<open>get_description\<close>, \<^verbatim>\<open>get_handle\<close>, \<^verbatim>\<open>get_path\<close> and \<^verbatim>\<open>get_mime_type\<close>.

  A handle is a string. A description is a Python \<^verbatim>\<open>str\<close>, compared code point by code
  point; it is modelled by its UTF-8 bytes under the lexicographic order of
  \<^theory_text>\<open>List_Lexorder\<close> over the byte order of \<^theory_text>\<open>Char_ord\<close>, which orders UTF-8 texts
  as their code points are ordered.
\<close>

type_synonym handle = string

record media_ref =
  media_ref_handle :: handle

record event_ref =
  event_ref_handle :: handle

record media =
  media_handle :: handle
  description :: string
  path :: string
  mime_type :: string

record citation =
  citation_media_list :: "media_ref list"

record event =
  event_citation_list :: "handle list"

record name =
  name_citation_list :: "handle list"

record family =
  family_media_list :: "media_ref list"
  family_event_ref_list :: "event_ref list"

record person =
  person_media_list :: "media_ref list"
  person_citation_list :: "handle list"
  primary_name :: name
  alternate_names :: "name list"
  person_event_ref_list :: "event_ref list"
  family_handle_list :: "handle list"

record db =
  person_tbl :: "handle \<rightharpoonup> person"
  family_tbl :: "handle \<rightharpoonup> family"
  event_tbl :: "handle \<rightharpoonup> event"
  citation_tbl :: "handle \<rightharpoonup> citation"
  media_tbl :: "handle \<rightharpoonup> media"

subsection \<open>Lookups by handle\<close>

text \<open>
  The \<^verbatim>\<open>get_..._from_handle\<close> methods belong to the host application. Its release 5.1,
  the one the registration file targets, raises \<^verbatim>\<open>HandleError\<close> for a handle with no
  record. (Under an interface that returns \<^verbatim>\<open>None\<close> instead, the gramplet's next statement
  calls a method on that \<^verbatim>\<open>None\<close> and raises there: no lookup result is ever tested.)
  The exception is the \<open>Inl\<close> branch.
\<close>

datatype kind = PersonKey | FamilyKey | EventKey | CitationKey | MediaKey

datatype error = HandleError kind handle

definition get_person_from_handle :: "db \<Rightarrow> handle \<Rightarrow> error + person" where
  "get_person_from_handle d h =
     (case person_tbl d h of None \<Rightarrow> Inl (HandleError PersonKey h) | Some p \<Rightarrow> Inr p)"

definition get_family_from_handle :: "db \<Rightarrow> handle \<Rightarrow> error + family" where
  "get_family_from_handle d h =
     (case family_tbl d h of None \<Rightarrow> Inl (HandleError FamilyKey h) | Some f \<Rightarrow> Inr f)"

definition get_event_from_handle :: "db \<Rightarrow> handle \<Rightarrow> error + event" where
  "get_event_from_handle d h =
     (case event_tbl d h of None \<Rightarrow> Inl (HandleError EventKey h) | Some e \<Rightarrow> Inr e)"

definition get_citation_from_handle :: "db \<Rightarrow> handle \<Rightarrow> error + citation" where
  "get_citation_from_handle d h =
     (case citation_tbl d h of None \<Rightarrow> Inl (HandleError CitationKey h) | Some c \<Rightarrow> Inr c)"

definition get_media_from_handle :: "db \<Rightarrow> handle \<Rightarrow> error + media" where
  "get_media_from_handle d h =
     (case media_tbl d h of None \<Rightarrow> Inl (HandleError MediaKey h) | Some m \<Rightarrow> Inr m)"

section \<open>The traversal\<close>

text \<open>
  \<^verbatim>\<open>self.all_media\<close> is a Python dictionary from media handle to description. Dictionaries
  keep insertion order and \<^verbatim>\<open>main\<close> reads \<^verbatim>\<open>items()\<close> in that order, so the dictionary is
  an association list to which a new key is appended.

  The \<^verbatim>\<open>process_...\<close> methods touch no attribute but \<^verbatim>\<open>self.all_media\<close>: they take the
  dictionary and return it updated, together with the exception that ended the loop, if
  any. An exception leaves the dictionary as it was when it was raised.
\<close>

type_synonym media_dict = "(handle \<times> string) list"

fun process_media :: "db \<Rightarrow> media_ref list \<Rightarrow> media_dict \<Rightarrow> error option \<times> media_dict" where
  "process_media d [] am = (None, am)"
| "process_media d (media_ref # rest) am =
     (let mh = media_ref_handle media_ref in
      if mh \<in> set (map fst am) then process_media d rest am
      else (case get_media_from_handle d mh of
              Inl e \<Rightarrow> (Some e, am)
            | Inr m \<Rightarrow> process_media d rest (am @ [(mh, description m)])))"

fun process_citations :: "db \<Rightarrow> handle list \<Rightarrow> media_dict \<Rightarrow> error option \<times> media_dict" where
  "process_citations d [] am = (None, am)"
| "process_citations d (cit_handle # rest) am =
     (case get_citation_from_handle d cit_handle of
        Inl e \<Rightarrow> (Some e, am)
      | Inr cit \<Rightarrow>
          (case process_media d (citation_media_list cit) am of
             (Some e, am') \<Rightarrow> (Some e, am')
           | (None, am') \<Rightarrow> process_citations d rest am'))"

fun process_events :: "db \<Rightarrow> event_ref list \<Rightarrow> media_dict \<Rightarrow> error option \<times> media_dict" where
  "process_events d [] am = (None, am)"
| "process_events d (event_ref # rest) am =
     (case get_event_from_handle d (event_ref_handle event_ref) of
        Inl e \<Rightarrow> (Some e, am)
      | Inr ev \<Rightarrow>
          (case process_citations d (event_citation_list ev) am of
             (Some e, am') \<Rightarrow> (Some e, am')
           | (None, am') \<Rightarrow> process_events d rest am'))"

text \<open>The two iterations written inline in \<^verbatim>\<open>main\<close>: over the alternate names, and over the families.\<close>

fun process_alternate_names :: "db \<Rightarrow> name list \<Rightarrow> media_dict \<Rightarrow> error option \<times> media_dict" where
  "process_alternate_names d [] am = (None, am)"
| "process_alternate_names d (nm # rest) am =
     (case process_citations d (name_citation_list nm) am of
        (Some e, am') \<Rightarrow> (Some e, am')
      | (None, am') \<Rightarrow> process_alternate_names d rest am')"

fun process_families :: "db \<Rightarrow> handle list \<Rightarrow> media_dict \<Rightarrow> error option \<times> media_dict" where
  "process_families d [] am = (None, am)"
| "process_families d (family_handle # rest) am =
     (case get_family_from_handle d family_handle of
        Inl e \<Rightarrow> (Some e, am)
      | Inr fam \<Rightarrow>
          (case process_media d (family_media_list fam) am of
             (Some e, am') \<Rightarrow> (Some e, am')
           | (None, am') \<Rightarrow>
               (case process_events d (family_event_ref_list fam) am' of
                  (Some e, am'') \<Rightarrow> (Some e, am'')
                | (None, am'') \<Rightarrow> process_families d rest am'')))"

text \<open>Statement after statement: the second runs on the state the first left, unless it raised.\<close>

definition seq :: "('s \<Rightarrow> error option \<times> 's) \<Rightarrow> ('s \<Rightarrow> error option \<times> 's) \<Rightarrow> 's \<Rightarrow> error option \<times> 's" where
  "seq f g s = (case f s of (Some e, s') \<Rightarrow> (Some e, s') | (None, s') \<Rightarrow> g s')"

text \<open>
  Lines 203 to 221 of \<^verbatim>\<open>main\<close>: the dictionary is filled from the person, the person's
  citations, the citations of the primary name and of the alternate names, the person's
  events, and the person's families.
\<close>

definition traversal :: "db \<Rightarrow> person \<Rightarrow> media_dict \<Rightarrow> error option \<times> media_dict" where
  "traversal d active =
     seq (process_media d (person_media_list active))
    (seq (process_citations d (person_citation_list active))
    (seq (process_citations d (name_citation_list (primary_name active)))
    (seq (process_alternate_names d (alternate_names active))
    (seq (process_events d (person_event_ref_list active))
         (process_families d (family_handle_list active))))))"

text \<open>Line 201 creates the dictionary empty: the traversal starts from nothing.\<close>

definition collect :: "db \<Rightarrow> person \<Rightarrow> error option \<times> media_dict" where
  "collect d active = traversal d active []"

text \<open>Lines 224 and 225: the items in insertion order, sorted on the description. The sort of
  Python lists is stable, as \<^const>\<open>sort_key\<close> is.\<close>

definition media_list :: "media_dict \<Rightarrow> (handle \<times> string) list" where
  "media_list am = sort_key snd am"

section \<open>The gramplet\<close>

text \<open>
  An \<^verbatim>\<open>ImageBox\<close> shows the thumbnail of a media object over a label with its description.
  The gramplet keeps its boxes in \<^verbatim>\<open>self.image_list\<close> and packs them into
  \<^verbatim>\<open>self.content_box\<close>, top to bottom. \<^verbatim>\<open>self.all_media\<close> does not exist before the first
  run of \<^verbatim>\<open>main\<close> that gets past its guard.

  A box is identified here with what it shows, where the toolkit removes a widget by its
  identity: \<^verbatim>\<open>content_box.remove\<close> takes out the first box of the container that is equal to
  the one given, and leaves the container alone when there is none. Whenever the container
  holds just the boxes of the list, as it does from \<^verbatim>\<open>init\<close> on, both readings empty it.
\<close>

record image_box =
  photo_media :: media
  desc_label :: string

record gramplet =
  content_box :: "image_box list"
  image_list :: "image_box list"
  all_media :: "media_dict option"

definition ImageBox :: "media \<Rightarrow> image_box" where
  "ImageBox m = \<lparr>photo_media = m, desc_label = description m\<rparr>"

definition init :: gramplet where
  "init = \<lparr>content_box = [], image_list = [], all_media = None\<rparr>"

definition add_image :: "db \<Rightarrow> handle \<Rightarrow> gramplet \<Rightarrow> error option \<times> gramplet" where
  "add_image d mh g =
     (case get_media_from_handle d mh of
        Inl e \<Rightarrow> (Some e, g)
      | Inr m \<Rightarrow>
          (None, g\<lparr>content_box := content_box g @ [ImageBox m],
                    image_list := image_list g @ [ImageBox m]\<rparr>))"

definition clear_images :: "gramplet \<Rightarrow> gramplet" where
  "clear_images g =
     g\<lparr>content_box := fold remove1 (image_list g) (content_box g), image_list := []\<rparr>"

text \<open>The loop of lines 226 and 227.\<close>

fun add_images :: "db \<Rightarrow> (handle \<times> string) list \<Rightarrow> gramplet \<Rightarrow> error option \<times> gramplet" where
  "add_images d [] g = (None, g)"
| "add_images d (item # rest) g =
     (case add_image d (fst item) g of
        (Some e, g') \<Rightarrow> (Some e, g')
      | (None, g') \<Rightarrow> add_images d rest g')"

text \<open>
  \<^verbatim>\<open>main\<close>. The active handle comes from the host's selection (\<^verbatim>\<open>get_active('Person')\<close>):
  it is a parameter here. \<^verbatim>\<open>not active_handle\<close> holds for \<^verbatim>\<open>None\<close> and for the empty string.
\<close>

definition main :: "db \<Rightarrow> handle option \<Rightarrow> gramplet \<Rightarrow> error option \<times> gramplet" where
  "main d active_handle g0 =
     (let g = clear_images g0 in
      case active_handle of
        None \<Rightarrow> (None, g)
      | Some h \<Rightarrow>
          if h = [] then (None, g)
          else (case get_person_from_handle d h of
                  Inl e \<Rightarrow> (Some e, g)
                | Inr active \<Rightarrow>
                    (case collect d active of
                       (Some e, am) \<Rightarrow> (Some e, g\<lparr>all_media := Some am\<rparr>)
                     | (None, am) \<Rightarrow> add_images d (media_list am) (g\<lparr>all_media := Some am\<rparr>))))"

section \<open>What the traversal is meant to reach\<close>

text \<open>
  The sources of media handles, as the specification lists them: the references attached to
  an object, those attached to the citations of an object, and so on down the graph. A
  handle that does not resolve contributes nothing.
\<close>

definition media_of :: "media_ref list \<Rightarrow> handle set" where
  "media_of refs = media_ref_handle ` set refs"

definition citations_media :: "db \<Rightarrow> handle list \<Rightarrow> handle set" where
  "citations_media d cs =
     (\<Union>c \<in> set cs. case citation_tbl d c of None \<Rightarrow> {}
                     | Some cit \<Rightarrow> media_of (citation_media_list cit))"

definition events_media :: "db \<Rightarrow> event_ref list \<Rightarrow> handle set" where
  "events_media d es =
     (\<Union>r \<in> set es. case event_tbl d (event_ref_handle r) of None \<Rightarrow> {}
                     | Some ev \<Rightarrow> citations_media d (event_citation_list ev))"

definition names_media :: "db \<Rightarrow> name list \<Rightarrow> handle set" where
  "names_media d ns = (\<Union>n \<in> set ns. citations_media d (name_citation_list n))"

definition families_media :: "db \<Rightarrow> handle list \<Rightarrow> handle set" where
  "families_media d fs =
     (\<Union>fh \<in> set fs. case family_tbl d fh of None \<Rightarrow> {}
                      | Some fam \<Rightarrow> media_of (family_media_list fam)
                                    \<union> events_media d (family_event_ref_list fam))"

definition reachable_media :: "db \<Rightarrow> person \<Rightarrow> handle set" where
  "reachable_media d p =
     media_of (person_media_list p)
     \<union> citations_media d (person_citation_list p)
     \<union> citations_media d (name_citation_list (primary_name p))
     \<union> names_media d (alternate_names p)
     \<union> events_media d (person_event_ref_list p)
     \<union> families_media d (family_handle_list p)"

text \<open>Whether every handle the traversal dereferences has a record.\<close>

definition media_resolve :: "db \<Rightarrow> media_ref list \<Rightarrow> bool" where
  "media_resolve d refs = list_all (\<lambda>r. media_tbl d (media_ref_handle r) \<noteq> None) refs"

definition citations_resolve :: "db \<Rightarrow> handle list \<Rightarrow> bool" where
  "citations_resolve d cs =
     list_all (\<lambda>c. case citation_tbl d c of None \<Rightarrow> False
                   | Some cit \<Rightarrow> media_resolve d (citation_media_list cit)) cs"

definition events_resolve :: "db \<Rightarrow> event_ref list \<Rightarrow> bool" where
  "events_resolve d es =
     list_all (\<lambda>r. case event_tbl d (event_ref_handle r) of None \<Rightarrow> False
                   | Some ev \<Rightarrow> citations_resolve d (event_citation_list ev)) es"

definition names_resolve :: "db \<Rightarrow> name list \<Rightarrow> bool" where
  "names_resolve d ns = list_all (\<lambda>n. citations_resolve d (name_citation_list n)) ns"

definition families_resolve :: "db \<Rightarrow> handle list \<Rightarrow> bool" where
  "families_resolve d fs =
     list_all (\<lambda>fh. case family_tbl d fh of None \<Rightarrow> False
                    | Some fam \<Rightarrow> media_resolve d (family_media_list fam)
                                  \<and> events_resolve d (family_event_ref_list fam)) fs"

definition all_resolve :: "db \<Rightarrow> person \<Rightarrow> bool" where
  "all_resolve d p \<longleftrightarrow>
     media_resolve d (person_media_list p)
     \<and> citations_resolve d (person_citation_list p)
     \<and> citations_resolve d (name_citation_list (primary_name p))
     \<and> names_resolve d (alternate_names p)
     \<and> events_resolve d (person_event_ref_list p)
     \<and> families_resolve d (family_handle_list p)"

text \<open>An error names a handle that has no record.\<close>

fun dangling :: "db \<Rightarrow> error \<Rightarrow> bool" where
  "dangling d (HandleError PersonKey h) = (person_tbl d h = None)"
| "dangling d (HandleError FamilyKey h) = (family_tbl d h = None)"
| "dangling d (HandleError EventKey h) = (event_tbl d h = None)"
| "dangling d (HandleError CitationKey h) = (citation_tbl d h = None)"
| "dangling d (HandleError MediaKey h) = (media_tbl d h = None)"

subsection \<open>The collection rules as a list\<close>

text \<open>
  The six rules of the specification, each the statement group of \<^verbatim>\<open>main\<close> that carries it
  out, and a runner that applies a list of rules in order.
\<close>

definition rules :: "db \<Rightarrow> person \<Rightarrow> (media_dict \<Rightarrow> error option \<times> media_dict) list" where
  "rules d active =
     [process_media d (person_media_list active),
      process_citations d (person_citation_list active),
      process_citations d (name_citation_list (primary_name active)),
      process_alternate_names d (alternate_names active),
      process_events d (person_event_ref_list active),
      process_families d (family_handle_list active)]"

fun run_rules :: "(media_dict \<Rightarrow> error option \<times> media_dict) list \<Rightarrow> media_dict \<Rightarrow> error option \<times> media_dict" where
  "run_rules [] am = (None, am)"
| "run_rules (r # rs) am = seq r (run_rules rs) am"

section \<open>What a run displays\<close>

text \<open>The boxes that a run packs for a list of items whose handles all resolve.\<close>

definition boxes :: "db \<Rightarrow> (handle \<times> string) list \<Rightarrow> image_box list" where
  "boxes d items = map (\<lambda>item. ImageBox (the (media_tbl d (fst item)))) items"

section \<open>Invariant of the dictionary\<close>

definition dict_keys :: "media_dict \<Rightarrow> handle set" where
  "dict_keys am = set (map fst am)"

text \<open>
  A dictionary is consistent with the database when no key occurs twice and every key
  resolves to a media object with the description stored under it.
\<close>

definition consistent :: "db \<Rightarrow> media_dict \<Rightarrow> bool" where
  "consistent d am \<longleftrightarrow>
     distinct (map fst am)
     \<and> list_all (\<lambda>item. map_option description (media_tbl d (fst item)) = Some (snd item)) am"

text \<open>
  The behaviour of a piece of the traversal, from any consistent dictionary: it keeps the
  dictionary consistent and only appends to it, it adds no key outside \<open>T\<close>, it ends
  normally exactly when \<open>ok\<close> holds, then with every key of \<open>T\<close> present, and otherwise
  it ends with an error that names a handle without a record.
\<close>

definition behaves :: "db \<Rightarrow> (media_dict \<Rightarrow> error option \<times> media_dict) \<Rightarrow> bool \<Rightarrow> handle set \<Rightarrow> bool" where
  "behaves d f ok T \<longleftrightarrow>
     (\<forall>am. consistent d am \<longrightarrow>
        consistent d (snd (f am))
        \<and> take (length am) (snd (f am)) = am
        \<and> dict_keys (snd (f am)) \<subseteq> dict_keys am \<union> T
        \<and> (case fst (f am) of
              None \<Rightarrow> ok \<and> T \<subseteq> dict_keys (snd (f am))
            | Some e \<Rightarrow> \<not> ok \<and> dangling d e))"

section \<open>A sample database\<close>

definition mk_media :: "handle \<Rightarrow> string \<Rightarrow> media" where
  "mk_media h s = \<lparr>media_handle = h, description = s, path = h @ ''.jpg'', mime_type = ''image/jpeg''\<rparr>"

definition mref :: "handle \<Rightarrow> media_ref" where
  "mref h = \<lparr>media_ref_handle = h\<rparr>"

definition eref :: "handle \<Rightarrow> event_ref" where
  "eref h = \<lparr>event_ref_handle = h\<rparr>"

definition cited :: "handle list \<Rightarrow> name" where
  "cited cs = \<lparr>name_citation_list = cs\<rparr>"

text \<open>
  Anna has the picture ``Zebra'' herself, ``Apple'' through citations of her names and
  ``Mango'' through the citation of an event; her family carries ``Zebra'' again.
\<close>

definition anna :: person where
  "anna = \<lparr>person_media_list = [mref ''M1''], person_citation_list = [''C1''],
           primary_name = cited [''C2''], alternate_names = [cited [''C1'']],
           person_event_ref_list = [eref ''E1''], family_handle_list = [''F1'']\<rparr>"

text \<open>Bert has two different pictures with the same description, one of them through his family.\<close>

definition bert :: person where
  "bert = \<lparr>person_media_list = [mref ''M4''], person_citation_list = [],
           primary_name = cited [], alternate_names = [],
           person_event_ref_list = [], family_handle_list = [''F2'']\<rparr>"

text \<open>Carl cites a source that is not in the database.\<close>

definition carl :: person where
  "carl = \<lparr>person_media_list = [mref ''M1''], person_citation_list = [''C9''],
           primary_name = cited [], alternate_names = [],
           person_event_ref_list = [], family_handle_list = []\<rparr>"

text \<open>Dora cites a source that is not in the database, and then one that is.\<close>

definition dora :: person where
  "dora = \<lparr>person_media_list = [], person_citation_list = [''C9'', ''C1''],
           primary_name = cited [], alternate_names = [],
           person_event_ref_list = [], family_handle_list = []\<rparr>"

definition sample_db :: db where
  "sample_db =
     \<lparr>person_tbl = [''I1'' \<mapsto> anna, ''I2'' \<mapsto> bert, ''I3'' \<mapsto> carl, ''I4'' \<mapsto> dora],
      family_tbl = [''F1'' \<mapsto> \<lparr>family_media_list = [mref ''M1''], family_event_ref_list = [eref ''E2'']\<rparr>,
                    ''F2'' \<mapsto> \<lparr>family_media_list = [mref ''M5''], family_event_ref_list = []\<rparr>],
      event_tbl = [''E1'' \<mapsto> \<lparr>event_citation_list = [''C3'']\<rparr>,
                   ''E2'' \<mapsto> \<lparr>event_citation_list = [''C3'', ''C1'']\<rparr>],
      citation_tbl = [''C1'' \<mapsto> \<lparr>citation_media_list = [mref ''M2'']\<rparr>,
                      ''C2'' \<mapsto> \<lparr>citation_media_list = [mref ''M2'']\<rparr>,
                      ''C3'' \<mapsto> \<lparr>citation_media_list = [mref ''M3'']\<rparr>],
      media_tbl = [''M1'' \<mapsto> mk_media ''M1'' ''Zebra'', ''M2'' \<mapsto> mk_media ''M2'' ''Apple'',
                   ''M3'' \<mapsto> mk_media ''M3'' ''Mango'', ''M4'' \<mapsto> mk_media ''M4'' ''Photo'',
                   ''M5'' \<mapsto> mk_media ''M5'' ''Photo'']\<rparr>"

text \<open>A gramplet that is showing one picture.\<close>

definition showing :: gramplet where
  "showing = \<lparr>content_box = [ImageBox (mk_media ''M4'' ''Photo'')],
              image_list = [ImageBox (mk_media ''M4'' ''Photo'')],
              all_media = Some [(''M4'', ''Photo'')]\<rparr>"

section \<open>How the traversal behaves\<close>

lemma consistent_Nil: "consistent d []"
  by (simp add: consistent_def)

lemma consistent_snoc:
  "consistent d am \<Longrightarrow> h \<notin> dict_keys am \<Longrightarrow> media_tbl d h = Some m \<Longrightarrow>
   consistent d (am @ [(h, description m)])"
  by (simp add: consistent_def dict_keys_def)

lemma consistent_resolves:
  "consistent d am \<Longrightarrow> h \<in> dict_keys am \<Longrightarrow> media_tbl d h \<noteq> None"
  by (auto simp: consistent_def dict_keys_def list_all_iff)

lemma behaves_skip: "behaves d (\<lambda>am. (None, am)) True {}"
  by (simp add: behaves_def)

lemma behaves_fail: "dangling d e \<Longrightarrow> behaves d (\<lambda>am. (Some e, am)) False T"
  by (simp add: behaves_def)

lemma take_prefix_trans:
  "take (length a) b = a \<Longrightarrow> take (length b) c = b \<Longrightarrow> take (length a) c = a"
  by (metis append_eq_conv_conj append_assoc append_take_drop_id)

lemma prefix_keys: "take (length a) b = a \<Longrightarrow> dict_keys a \<subseteq> dict_keys b"
  by (metis dict_keys_def set_take_subset take_map set_map)

lemma behavesD:
  assumes "behaves d f ok T" and "consistent d am" and "f am = (e, am')"
  shows "consistent d am'" and "take (length am) am' = am"
    and "dict_keys am' \<subseteq> dict_keys am \<union> T"
    and "case e of None \<Rightarrow> ok \<and> T \<subseteq> dict_keys am' | Some x \<Rightarrow> \<not> ok \<and> dangling d x"
proof -
  from assms(1,2) have "consistent d (snd (f am))
        \<and> take (length am) (snd (f am)) = am
        \<and> dict_keys (snd (f am)) \<subseteq> dict_keys am \<union> T
        \<and> (case fst (f am) of
              None \<Rightarrow> ok \<and> T \<subseteq> dict_keys (snd (f am))
            | Some e \<Rightarrow> \<not> ok \<and> dangling d e)"
    unfolding behaves_def by blast
  with assms(3) show "consistent d am'" and "take (length am) am' = am"
    and "dict_keys am' \<subseteq> dict_keys am \<union> T"
    and "case e of None \<Rightarrow> ok \<and> T \<subseteq> dict_keys am' | Some x \<Rightarrow> \<not> ok \<and> dangling d x"
    by (auto split: option.splits)
qed

lemma behavesI:
  assumes "\<And>am e am'. consistent d am \<Longrightarrow> f am = (e, am') \<Longrightarrow>
     consistent d am' \<and> take (length am) am' = am \<and> dict_keys am' \<subseteq> dict_keys am \<union> T
     \<and> (case e of None \<Rightarrow> ok \<and> T \<subseteq> dict_keys am' | Some x \<Rightarrow> \<not> ok \<and> dangling d x)"
  shows "behaves d f ok T"
  unfolding behaves_def
proof (intro allI impI)
  fix am assume "consistent d am"
  moreover have "f am = (fst (f am), snd (f am))" by simp
  ultimately show "consistent d (snd (f am))
        \<and> take (length am) (snd (f am)) = am
        \<and> dict_keys (snd (f am)) \<subseteq> dict_keys am \<union> T
        \<and> (case fst (f am) of
              None \<Rightarrow> ok \<and> T \<subseteq> dict_keys (snd (f am))
            | Some e \<Rightarrow> \<not> ok \<and> dangling d e)"
    by (rule assms)
qed

lemma behaves_seq:
  assumes f: "behaves d f ok1 T1" and g: "behaves d g ok2 T2"
  shows "behaves d (seq f g) (ok1 \<and> ok2) (T1 \<union> T2)"
proof (rule behavesI)
  fix am e am' assume c: "consistent d am" and r: "seq f g am = (e, am')"
  obtain e1 am1 where r1: "f am = (e1, am1)" by (cases "f am")
  note f1 = behavesD [OF f c r1]
  show "consistent d am' \<and> take (length am) am' = am \<and> dict_keys am' \<subseteq> dict_keys am \<union> (T1 \<union> T2)
     \<and> (case e of None \<Rightarrow> (ok1 \<and> ok2) \<and> T1 \<union> T2 \<subseteq> dict_keys am'
         | Some x \<Rightarrow> \<not> (ok1 \<and> ok2) \<and> dangling d x)"
  proof (cases e1)
    case (Some x)
    with r r1 have "e = Some x" "am' = am1" by (simp_all add: seq_def)
    with f1 Some show ?thesis by auto
  next
    case None
    with r r1 have r2: "g am1 = (e, am')" by (simp add: seq_def)
    note g2 = behavesD [OF g f1(1) r2]
    have p: "take (length am) am' = am"
      using f1(2) g2(2) by (rule take_prefix_trans)
    have k: "dict_keys am1 \<subseteq> dict_keys am'"
      using g2(2) by (rule prefix_keys)
    have s: "dict_keys am' \<subseteq> dict_keys am \<union> (T1 \<union> T2)"
      using f1(3) g2(3) by blast
    have t: "case e of None \<Rightarrow> (ok1 \<and> ok2) \<and> T1 \<union> T2 \<subseteq> dict_keys am'
         | Some x \<Rightarrow> \<not> (ok1 \<and> ok2) \<and> dangling d x"
      using f1(4) g2(4) k None by (auto split: option.splits)
    show ?thesis using g2(1) p s t by simp
  qed
qed

lemma behaves_process_media:
  "behaves d (process_media d refs) (media_resolve d refs) (media_of refs)"
proof (induction refs)
  case Nil
  have "process_media d [] = (\<lambda>am. (None, am))" by (rule ext) simp
  then show ?case using behaves_skip [of d] by (simp add: media_resolve_def media_of_def)
next
  case (Cons r rs)
  let ?h = "media_ref_handle r"
  show ?case
  proof (rule behavesI)
    fix am e am' assume c: "consistent d am" and res: "process_media d (r # rs) am = (e, am')"
    show "consistent d am' \<and> take (length am) am' = am
        \<and> dict_keys am' \<subseteq> dict_keys am \<union> media_of (r # rs)
        \<and> (case e of
              None \<Rightarrow> media_resolve d (r # rs) \<and> media_of (r # rs) \<subseteq> dict_keys am'
            | Some x \<Rightarrow> \<not> media_resolve d (r # rs) \<and> dangling d x)"
    proof (cases "?h \<in> dict_keys am")
      case True
      with res have eq: "process_media d rs am = (e, am')" by (simp add: dict_keys_def)
      note ih = behavesD [OF Cons.IH c eq]
      from True c have m: "media_tbl d ?h \<noteq> None" by (rule consistent_resolves [rotated])
      have k: "dict_keys am \<subseteq> dict_keys am'" using ih(2) by (rule prefix_keys)
      have s: "dict_keys am' \<subseteq> dict_keys am \<union> media_of (r # rs)"
        using ih(3) by (auto simp: media_of_def)
      have t: "case e of
              None \<Rightarrow> media_resolve d (r # rs) \<and> media_of (r # rs) \<subseteq> dict_keys am'
            | Some x \<Rightarrow> \<not> media_resolve d (r # rs) \<and> dangling d x"
        using ih(4) m k True by (auto simp: media_resolve_def media_of_def split: option.splits)
      show ?thesis using ih(1,2) s t by simp
    next
      case False
      show ?thesis
      proof (cases "media_tbl d ?h")
        case None
        with False res have "e = Some (HandleError MediaKey ?h)" "am' = am"
          by (simp_all add: dict_keys_def get_media_from_handle_def)
        with c None show ?thesis by (simp add: media_resolve_def)
      next
        case (Some m)
        let ?am1 = "am @ [(?h, description m)]"
        from False Some res have eq: "process_media d rs ?am1 = (e, am')"
          by (simp add: dict_keys_def get_media_from_handle_def)
        have c1: "consistent d ?am1" using c False Some by (rule consistent_snoc)
        note ih = behavesD [OF Cons.IH c1 eq]
        have p: "take (length am) am' = am"
          by (rule take_prefix_trans [OF _ ih(2)]) simp
        have k: "dict_keys ?am1 \<subseteq> dict_keys am'" using ih(2) by (rule prefix_keys)
        have s: "dict_keys am' \<subseteq> dict_keys am \<union> media_of (r # rs)"
          using ih(3) by (auto simp: media_of_def dict_keys_def)
        have t: "case e of
              None \<Rightarrow> media_resolve d (r # rs) \<and> media_of (r # rs) \<subseteq> dict_keys am'
            | Some x \<Rightarrow> \<not> media_resolve d (r # rs) \<and> dangling d x"
          using ih(4) k Some
          by (auto simp: media_resolve_def media_of_def dict_keys_def split: option.splits)
        show ?thesis using ih(1) p s t by simp
      qed
    qed
  qed
qed


lemma process_citations_fail:
  "citation_tbl d c = None \<Longrightarrow>
   process_citations d (c # cs) = (\<lambda>am. (Some (HandleError CitationKey c), am))"
  by (rule ext) (simp add: get_citation_from_handle_def)

lemma process_citations_step:
  "citation_tbl d c = Some cit \<Longrightarrow>
   process_citations d (c # cs) = seq (process_media d (citation_media_list cit)) (process_citations d cs)"
  by (rule ext) (simp add: get_citation_from_handle_def seq_def)

lemma behaves_process_citations:
  "behaves d (process_citations d cs) (citations_resolve d cs) (citations_media d cs)"
proof (induction cs)
  case Nil
  have "process_citations d [] = (\<lambda>am. (None, am))" by (rule ext) simp
  then show ?case
    using behaves_skip [of d] by (simp add: citations_resolve_def citations_media_def)
next
  case (Cons c cs)
  show ?case
  proof (cases "citation_tbl d c")
    case None
    then have "dangling d (HandleError CitationKey c)" by simp
    then have "behaves d (\<lambda>am. (Some (HandleError CitationKey c), am)) False (citations_media d (c # cs))"
      by (rule behaves_fail)
    with None show ?thesis
      by (simp add: process_citations_fail citations_resolve_def)
  next
    case (Some cit)
    have "behaves d (seq (process_media d (citation_media_list cit)) (process_citations d cs))
            (media_resolve d (citation_media_list cit) \<and> citations_resolve d cs)
            (media_of (citation_media_list cit) \<union> citations_media d cs)"
      using behaves_process_media Cons.IH by (rule behaves_seq)
    with Some show ?thesis
      by (simp add: process_citations_step citations_resolve_def citations_media_def)
  qed
qed

lemma process_events_fail:
  "event_tbl d (event_ref_handle r) = None \<Longrightarrow>
   process_events d (r # rs) = (\<lambda>am. (Some (HandleError EventKey (event_ref_handle r)), am))"
  by (rule ext) (simp add: get_event_from_handle_def)

lemma process_events_step:
  "event_tbl d (event_ref_handle r) = Some ev \<Longrightarrow>
   process_events d (r # rs) = seq (process_citations d (event_citation_list ev)) (process_events d rs)"
  by (rule ext) (simp add: get_event_from_handle_def seq_def)

lemma behaves_process_events:
  "behaves d (process_events d es) (events_resolve d es) (events_media d es)"
proof (induction es)
  case Nil
  have "process_events d [] = (\<lambda>am. (None, am))" by (rule ext) simp
  then show ?case
    using behaves_skip [of d] by (simp add: events_resolve_def events_media_def)
next
  case (Cons r rs)
  show ?case
  proof (cases "event_tbl d (event_ref_handle r)")
    case None
    then have "dangling d (HandleError EventKey (event_ref_handle r))" by simp
    then have "behaves d (\<lambda>am. (Some (HandleError EventKey (event_ref_handle r)), am)) False
                 (events_media d (r # rs))"
      by (rule behaves_fail)
    with None show ?thesis
      by (simp add: process_events_fail events_resolve_def)
  next
    case (Some ev)
    have "behaves d (seq (process_citations d (event_citation_list ev)) (process_events d rs))
            (citations_resolve d (event_citation_list ev) \<and> events_resolve d rs)
            (citations_media d (event_citation_list ev) \<union> events_media d rs)"
      using behaves_process_citations Cons.IH by (rule behaves_seq)
    with Some show ?thesis
      by (simp add: process_events_step events_resolve_def events_media_def)
  qed
qed

lemma process_alternate_names_step:
  "process_alternate_names d (n # ns) =
   seq (process_citations d (name_citation_list n)) (process_alternate_names d ns)"
  by (rule ext) (simp add: seq_def)

lemma behaves_process_alternate_names:
  "behaves d (process_alternate_names d ns) (names_resolve d ns) (names_media d ns)"
proof (induction ns)
  case Nil
  have "process_alternate_names d [] = (\<lambda>am. (None, am))" by (rule ext) simp
  then show ?case
    using behaves_skip [of d] by (simp add: names_resolve_def names_media_def)
next
  case (Cons n ns)
  have "behaves d (seq (process_citations d (name_citation_list n)) (process_alternate_names d ns))
          (citations_resolve d (name_citation_list n) \<and> names_resolve d ns)
          (citations_media d (name_citation_list n) \<union> names_media d ns)"
    using behaves_process_citations Cons.IH by (rule behaves_seq)
  then show ?case
    by (simp add: process_alternate_names_step names_resolve_def names_media_def)
qed

lemma process_families_fail:
  "family_tbl d fh = None \<Longrightarrow>
   process_families d (fh # fs) = (\<lambda>am. (Some (HandleError FamilyKey fh), am))"
  by (rule ext) (simp add: get_family_from_handle_def)

lemma process_families_step:
  "family_tbl d fh = Some fam \<Longrightarrow>
   process_families d (fh # fs) =
   seq (process_media d (family_media_list fam))
     (seq (process_events d (family_event_ref_list fam)) (process_families d fs))"
  by (rule ext) (simp add: get_family_from_handle_def seq_def split: prod.splits option.splits)

lemma behaves_process_families:
  "behaves d (process_families d fs) (families_resolve d fs) (families_media d fs)"
proof (induction fs)
  case Nil
  have "process_families d [] = (\<lambda>am. (None, am))" by (rule ext) simp
  then show ?case
    using behaves_skip [of d] by (simp add: families_resolve_def families_media_def)
next
  case (Cons fh fs)
  show ?case
  proof (cases "family_tbl d fh")
    case None
    then have "dangling d (HandleError FamilyKey fh)" by simp
    then have "behaves d (\<lambda>am. (Some (HandleError FamilyKey fh), am)) False (families_media d (fh # fs))"
      by (rule behaves_fail)
    with None show ?thesis
      by (simp add: process_families_fail families_resolve_def)
  next
    case (Some fam)
    have "behaves d (seq (process_events d (family_event_ref_list fam)) (process_families d fs))
            (events_resolve d (family_event_ref_list fam) \<and> families_resolve d fs)
            (events_media d (family_event_ref_list fam) \<union> families_media d fs)"
      using behaves_process_events Cons.IH by (rule behaves_seq)
    with behaves_process_media
    have "behaves d (seq (process_media d (family_media_list fam))
                      (seq (process_events d (family_event_ref_list fam)) (process_families d fs)))
            (media_resolve d (family_media_list fam)
              \<and> events_resolve d (family_event_ref_list fam) \<and> families_resolve d fs)
            (media_of (family_media_list fam)
              \<union> (events_media d (family_event_ref_list fam) \<union> families_media d fs))"
      by (rule behaves_seq)
    with Some show ?thesis
      by (simp add: process_families_step families_resolve_def families_media_def Un_assoc)
  qed
qed

lemma behaves_traversal:
  "behaves d (traversal d p) (all_resolve d p) (reachable_media d p)"
  unfolding traversal_def all_resolve_def reachable_media_def Un_assoc
  by (intro behaves_seq behaves_process_media behaves_process_citations
        behaves_process_alternate_names behaves_process_events behaves_process_families)

lemma run_rules_traversal: "run_rules (rules d p) = traversal d p"
  by (rule ext) (simp add: rules_def traversal_def seq_def split: prod.splits option.splits)

lemmas sample_simps = sample_db_def anna_def bert_def carl_def dora_def mk_media_def mref_def eref_def
  cited_def showing_def init_def

lemmas run_simps = get_person_from_handle_def get_family_from_handle_def
  get_event_from_handle_def get_citation_from_handle_def get_media_from_handle_def seq_def
  traversal_def collect_def media_list_def main_def clear_images_def add_image_def ImageBox_def rules_def

lemma consistent_collect: "consistent d (snd (collect d p))"
  using behavesD(1) [OF behaves_traversal consistent_Nil, of d p "fst (collect d p)" "snd (collect d p)"]
  by (simp add: collect_def)

lemma consistent_entry:
  "consistent d am \<Longrightarrow> (h, s) \<in> set am \<Longrightarrow> map_option description (media_tbl d h) = Some s"
  by (auto simp: consistent_def list_all_iff)

lemma process_media_prefix: "take (length am) (snd (process_media d refs am)) = am"
proof (induction refs arbitrary: am)
  case Nil
  show ?case by simp
next
  case (Cons r rs)
  have "take (length am) (snd (process_media d rs (am @ [x]))) = am" for x
    by (rule take_prefix_trans [OF _ Cons.IH]) simp
  with Cons.IH show ?case
    by (simp add: Let_def split: sum.splits)
qed

lemma process_media_distinct:
  "distinct (map fst am) \<Longrightarrow> distinct (map fst (snd (process_media d refs am)))"
  by (induction refs arbitrary: am) (simp_all add: Let_def split: sum.splits)

lemma process_media_entries:
  "(h, s) \<in> set (snd (process_media d refs am)) \<Longrightarrow>
   (h, s) \<in> set am \<or> map_option description (media_tbl d h) = Some s"
proof (induction refs arbitrary: am)
  case Nil
  then show ?case by simp
next
  case (Cons r rs)
  show ?case
  proof (cases "media_ref_handle r \<in> set (map fst am)")
    case True
    with Cons.prems have "(h, s) \<in> set (snd (process_media d rs am))" by simp
    then show ?thesis by (rule Cons.IH)
  next
    case False
    show ?thesis
    proof (cases "media_tbl d (media_ref_handle r)")
      case None
      with False Cons.prems show ?thesis by (simp add: get_media_from_handle_def)
    next
      case (Some m)
      with False Cons.prems
      have "(h, s) \<in> set (snd (process_media d rs (am @ [(media_ref_handle r, description m)])))"
        by (simp add: get_media_from_handle_def)
      from Cons.IH [OF this] Some show ?thesis by auto
    qed
  qed
qed

lemma prefix_map_of:
  assumes "take (length am) am' = am" and "map_of am h = Some s"
  shows "map_of am' h = Some s"
proof -
  from assms(1) have "am' = am @ drop (length am) am'"
    by (metis append_take_drop_id)
  then have "map_of am' h = (map_of (drop (length am) am') ++ map_of am) h"
    by (metis map_of_append)
  with assms(2) show ?thesis by (simp add: map_add_def)
qed

section \<open>Deduplication\<close>

text \<open>
  C1. Whatever the person and the database, the collected dictionary holds each media
  handle at most once, and so does the sorted list made from it, however many paths of the
  traversal reach the handle. \<^verbatim>\<open>process_media\<close> only appends to the dictionary: an entry
  that is already there keeps its place and its description, so the description of a handle
  is the one stored when the handle was first met.
\<close>

theorem dedup_first_seen:
  "distinct (map fst (snd (collect d p)))
   \<and> distinct (map fst (media_list (snd (collect d p))))
   \<and> take (length am) (snd (process_media d refs am)) = am
   \<and> (\<forall>h s. map_of am h = Some s \<longrightarrow> map_of (snd (process_media d refs am)) h = Some s)
   \<and> (distinct (map fst am) \<longrightarrow> distinct (map fst (snd (process_media d refs am))))"
proof -
  have a: "distinct (map fst (snd (collect d p)))"
    using consistent_collect [of d p] by (simp add: consistent_def)
  then have b: "distinct (map fst (media_list (snd (collect d p))))"
    by (simp add: media_list_def distinct_map)
  show ?thesis
    using a b process_media_prefix [of am d refs] process_media_distinct [of am d refs]
      prefix_map_of [OF process_media_prefix [of am d refs]]
    by blast
qed

theorem dedup_first_seen_witness:
  "map_of [(''M1'', ''Old label'')] ''M1'' = Some ''Old label''
   \<and> distinct (map fst [(''M1'', ''Old label'')])
   \<and> snd (process_media sample_db [mref ''M1'', mref ''M2''] [(''M1'', ''Old label'')])
       = [(''M1'', ''Old label''), (''M2'', ''Apple'')]
   \<and> map_of (snd (process_media sample_db [mref ''M1'', mref ''M2''] [(''M1'', ''Old label'')])) ''M1''
       = Some ''Old label''
   \<and> distinct (map fst (snd (process_media sample_db [mref ''M1'', mref ''M2''] [(''M1'', ''Old label'')])))
   \<and> map fst (snd (collect sample_db anna)) = [''M1'', ''M2'', ''M3'']
   \<and> distinct (map fst (snd (collect sample_db anna)))"
  using dedup_first_seen [of sample_db anna "[(''M1'', ''Old label'')]" "[mref ''M1'', mref ''M2'']"]
  by (simp add: sample_simps run_simps)

section \<open>Runs of the gramplet\<close>

lemma fold_remove1_self: "fold remove1 xs (xs @ ys) = ys"
  by (induction xs) simp_all

lemma clear_images_shown:
  "content_box g = image_list g \<Longrightarrow>
   clear_images g = g\<lparr>content_box := [], image_list := []\<rparr>"
  using fold_remove1_self [of "image_list g" "[]"] by (simp add: clear_images_def)

lemma image_list_clear_images: "image_list (clear_images g) = []"
  by (simp add: clear_images_def)

lemma all_media_clear_images: "all_media (clear_images g) = all_media g"
  by (simp add: clear_images_def)

lemma main_absent: "main d None g = (None, clear_images g)"
  by (simp add: main_def)

lemma main_empty: "main d (Some []) g = (None, clear_images g)"
  by (simp add: main_def)

lemma main_unresolved:
  "h \<noteq> [] \<Longrightarrow> person_tbl d h = None \<Longrightarrow>
   main d (Some h) g = (Some (HandleError PersonKey h), clear_images g)"
  by (simp add: main_def get_person_from_handle_def)

lemma main_fail:
  "h \<noteq> [] \<Longrightarrow> person_tbl d h = Some p \<Longrightarrow> collect d p = (Some e, am) \<Longrightarrow>
   main d (Some h) g = (Some e, (clear_images g)\<lparr>all_media := Some am\<rparr>)"
  by (simp add: main_def get_person_from_handle_def)

lemma add_images_resolved:
  "list_all (\<lambda>item. media_tbl d (fst item) \<noteq> None) items \<Longrightarrow>
   add_images d items g =
     (None, g\<lparr>content_box := content_box g @ boxes d items,
               image_list := image_list g @ boxes d items\<rparr>)"
proof (induction items arbitrary: g)
  case Nil
  show ?case by (simp add: boxes_def)
next
  case (Cons item items)
  from Cons.prems obtain m where m: "media_tbl d (fst item) = Some m" by auto
  from Cons.prems have "list_all (\<lambda>item. media_tbl d (fst item) \<noteq> None) items" by simp
  note ih = Cons.IH [OF this]
  show ?case
    by (simp add: add_image_def get_media_from_handle_def m ih boxes_def)
qed

lemma consistent_sorted_resolves:
  "consistent d am \<Longrightarrow> list_all (\<lambda>item. media_tbl d (fst item) \<noteq> None) (media_list am)"
  by (auto simp: consistent_def list_all_iff media_list_def)

lemma main_run:
  assumes "h \<noteq> []" and "person_tbl d h = Some p" and "collect d p = (None, am)"
  shows "main d (Some h) g =
     (None, (clear_images g)\<lparr>content_box := content_box (clear_images g) @ boxes d (media_list am),
                              image_list := boxes d (media_list am),
                              all_media := Some am\<rparr>)"
proof -
  have "consistent d am" using consistent_collect [of d p] assms(3) by simp
  then have "list_all (\<lambda>item. media_tbl d (fst item) \<noteq> None) (media_list am)"
    by (rule consistent_sorted_resolves)
  from add_images_resolved [OF this] assms show ?thesis
    by (simp add: main_def get_person_from_handle_def image_list_clear_images Let_def)
qed

lemma boxes_match:
  "consistent d am \<Longrightarrow>
   list_all2 (\<lambda>box item. media_tbl d (fst item) = Some (photo_media box) \<and> desc_label box = snd item)
     (boxes d (media_list am)) (media_list am)"
proof -
  assume "consistent d am"
  then have "\<forall>item \<in> set (media_list am).
      media_tbl d (fst item) = Some (the (media_tbl d (fst item)))
      \<and> description (the (media_tbl d (fst item))) = snd item"
    by (fastforce simp: consistent_def list_all_iff media_list_def)
  then show ?thesis
    by (simp add: boxes_def list_all2_map1 list_all2_same ImageBox_def)
qed

section \<open>Order of the display\<close>

text \<open>
  C2. A run of \<^verbatim>\<open>main\<close> that ends normally for a person handle displays one box for each
  item of the sorted list, in the order of that list, each box showing the media object of
  the item's handle under the item's description. The sorted list has the items of the
  collected dictionary, in ascending order of description under the lexicographic order on
  strings (which distinguishes upper and lower case), and the items with one and the same
  description stand in it in the order in which the traversal found them.
\<close>

theorem sorted_stable_output:
  assumes "main d (Some h) g = (None, g')" and "h \<noteq> []"
  shows "\<exists>p am. person_tbl d h = Some p \<and> collect d p = (None, am) \<and> all_media g' = Some am
     \<and> list_all2 (\<lambda>box item. media_tbl d (fst item) = Some (photo_media box) \<and> desc_label box = snd item)
         (image_list g') (media_list am)
     \<and> sorted (map snd (media_list am))
     \<and> mset (media_list am) = mset am
     \<and> (\<forall>s. filter (\<lambda>item. snd item = s) (media_list am) = filter (\<lambda>item. snd item = s) am)"
proof (cases "person_tbl d h")
  case None
  with assms show ?thesis by (simp add: main_unresolved)
next
  case (Some p)
  obtain e am where c: "collect d p = (e, am)" by (cases "collect d p")
  show ?thesis
  proof (cases e)
    case (Some x)
    with assms \<open>person_tbl d h = Some p\<close> c show ?thesis by (simp add: main_fail)
  next
    case None
    with c have c': "collect d p = (None, am)" by simp
    have k: "consistent d am" using consistent_collect [of d p] c by simp
    from assms(1) have g': "g' = (clear_images g)\<lparr>content_box := content_box (clear_images g) @ boxes d (media_list am),
                              image_list := boxes d (media_list am),
                              all_media := Some am\<rparr>"
      by (simp add: main_run [OF assms(2) \<open>person_tbl d h = Some p\<close> c'])
    have s: "sorted (map snd (media_list am))" by (simp add: media_list_def)
    have m: "mset (media_list am) = mset am" by (simp add: media_list_def)
    have st: "\<forall>s. filter (\<lambda>item. snd item = s) (media_list am) = filter (\<lambda>item. snd item = s) am"
      by (simp add: media_list_def sort_key_stable)
    show ?thesis
      using \<open>person_tbl d h = Some p\<close> c' g' boxes_match [OF k] s m st by simp
  qed
qed

theorem sorted_stable_output_witness:
  "main sample_db (Some ''I1'') showing =
     (None, \<lparr>content_box = boxes sample_db [(''M2'', ''Apple''), (''M3'', ''Mango''), (''M1'', ''Zebra'')],
             image_list = boxes sample_db [(''M2'', ''Apple''), (''M3'', ''Mango''), (''M1'', ''Zebra'')],
             all_media = Some [(''M1'', ''Zebra''), (''M2'', ''Apple''), (''M3'', ''Mango'')]\<rparr>)
   \<and> ''I1'' \<noteq> []
   \<and> (\<exists>p am. person_tbl sample_db ''I1'' = Some p \<and> collect sample_db p = (None, am)
        \<and> media_list am = [(''M2'', ''Apple''), (''M3'', ''Mango''), (''M1'', ''Zebra'')]
        \<and> sorted (map snd (media_list am)))
   \<and> media_list [(''M6'', ''apple''), (''M1'', ''Zebra'')] = [(''M1'', ''Zebra''), (''M6'', ''apple'')]"
proof -
  have u: "media_list [(''M6'', ''apple''), (''M1'', ''Zebra'')] = [(''M1'', ''Zebra''), (''M6'', ''apple'')]"
    by (simp add: media_list_def)
  have r: "main sample_db (Some ''I1'') showing =
     (None, \<lparr>content_box = boxes sample_db [(''M2'', ''Apple''), (''M3'', ''Mango''), (''M1'', ''Zebra'')],
             image_list = boxes sample_db [(''M2'', ''Apple''), (''M3'', ''Mango''), (''M1'', ''Zebra'')],
             all_media = Some [(''M1'', ''Zebra''), (''M2'', ''Apple''), (''M3'', ''Mango'')]\<rparr>)"
    by (simp add: sample_simps run_simps boxes_def)
  have n: "''I1'' \<noteq> []" by simp
  have c: "collect sample_db anna = (None, [(''M1'', ''Zebra''), (''M2'', ''Apple''), (''M3'', ''Mango'')])"
    by (simp add: sample_simps run_simps)
  have p: "person_tbl sample_db ''I1'' = Some anna" by (simp add: sample_db_def)
  have l: "media_list [(''M1'', ''Zebra''), (''M2'', ''Apple''), (''M3'', ''Mango'')]
          = [(''M2'', ''Apple''), (''M3'', ''Mango''), (''M1'', ''Zebra'')]"
    by (simp add: media_list_def)
  from sorted_stable_output [OF r n] p c l show ?thesis
    using r u by auto
qed

lemmas reach_simps = reachable_media_def media_of_def citations_media_def events_media_def
  names_media_def families_media_def

lemmas resolve_simps = all_resolve_def media_resolve_def citations_resolve_def
  events_resolve_def names_resolve_def families_resolve_def

section \<open>What is collected\<close>

text \<open>
  C3, as stated, does not hold: Dora's handle \<open>I4\<close> resolves, but the first citation she
  refers to has no record. The traversal ends there with the lookup's error and has
  collected nothing, while the media of her second citation belongs to the union of the
  sources.
\<close>

theorem collected_exactly_reachable_counterexample:
  "person_tbl sample_db ''I4'' = Some dora
   \<and> collect sample_db dora = (Some (HandleError CitationKey ''C9''), [])
   \<and> reachable_media sample_db dora = {''M2''}
   \<and> set (map fst (snd (collect sample_db dora))) \<noteq> reachable_media sample_db dora"
proof -
  have p: "person_tbl sample_db ''I4'' = Some dora" by (simp add: sample_db_def)
  have c: "collect sample_db dora = (Some (HandleError CitationKey ''C9''), [])"
    by (simp add: sample_simps run_simps)
  have r: "reachable_media sample_db dora = {''M2''}"
    by (auto simp add: sample_simps reach_simps)
  from p c r show ?thesis by simp
qed

text \<open>
  C3, amended. The traversal for a person ends normally exactly when every handle that it
  dereferences (of a citation, an event, a family or a media object) has a record, and the
  handles it has collected are then exactly those of \<^const>\<open>reachable_media\<close>: the media of
  the person, of the citations of the person, of the primary name, of each alternate name
  and of each event of the person, and, for each family of the person, the media of the
  family and of the citations of the family's events. In every case, also when the
  traversal ends with an error, no handle outside that union is collected.
\<close>

theorem collected_exactly_reachable:
  "(fst (collect d p) = None \<longleftrightarrow> all_resolve d p)
   \<and> (all_resolve d p \<longrightarrow> (\<exists>am. collect d p = (None, am) \<and> set (map fst am) = reachable_media d p))
   \<and> set (map fst (snd (collect d p))) \<subseteq> reachable_media d p"
proof -
  obtain e am where c: "traversal d p [] = (e, am)" by (cases "traversal d p []")
  note b = behavesD [OF behaves_traversal consistent_Nil c]
  from b(3) have sub: "dict_keys am \<subseteq> reachable_media d p" by (simp add: dict_keys_def)
  from b(4) have iff: "e = None \<longleftrightarrow> all_resolve d p" by (cases e) auto
  have "e = None \<and> dict_keys am = reachable_media d p" if "all_resolve d p"
    using b(4) sub that by (cases e) auto
  with sub c iff show ?thesis by (simp add: collect_def dict_keys_def)
qed

theorem collected_exactly_reachable_witness:
  "all_resolve sample_db anna
   \<and> fst (collect sample_db anna) = None
   \<and> collect sample_db anna = (None, [(''M1'', ''Zebra''), (''M2'', ''Apple''), (''M3'', ''Mango'')])
   \<and> reachable_media sample_db anna = {''M1'', ''M2'', ''M3''}
   \<and> (\<exists>am. collect sample_db anna = (None, am) \<and> set (map fst am) = reachable_media sample_db anna)"
proof -
  have a: "all_resolve sample_db anna" by (simp add: sample_simps resolve_simps)
  have c: "collect sample_db anna = (None, [(''M1'', ''Zebra''), (''M2'', ''Apple''), (''M3'', ''Mango'')])"
    by (simp add: sample_simps run_simps)
  have r: "reachable_media sample_db anna = {''M1'', ''M2'', ''M3''}"
    by (auto simp add: sample_simps reach_simps)
  from collected_exactly_reachable [of sample_db anna] a c r show ?thesis by blast
qed

section \<open>A person handle without a record\<close>

text \<open>
  C4, as stated, does not hold: for the handle \<open>I9\<close>, which has no person record in the
  sample database, \<^verbatim>\<open>main\<close> does not return an empty result but ends with the lookup's
  error.
\<close>

theorem unresolved_person_counterexample:
  "fst (main sample_db (Some ''I9'') showing) = Some (HandleError PersonKey ''I9'')"
  by (simp add: sample_simps run_simps)

text \<open>
  C4, amended. When the active person handle is not empty and has no person record, the
  run ends with the lookup's \<^verbatim>\<open>HandleError\<close> for that handle. The boxes shown before have
  been removed by then, so nothing is displayed, and \<^verbatim>\<open>self.all_media\<close> is left as it was.
\<close>

theorem unresolved_person_fails:
  assumes "h \<noteq> []" and "person_tbl d h = None"
  shows "main d (Some h) g = (Some (HandleError PersonKey h), clear_images g)
         \<and> image_list (clear_images g) = []
         \<and> all_media (clear_images g) = all_media g"
  using assms by (simp add: main_unresolved image_list_clear_images all_media_clear_images)

theorem unresolved_person_fails_witness:
  "''I9'' \<noteq> [] \<and> person_tbl sample_db ''I9'' = None
   \<and> main sample_db (Some ''I9'') showing
       = (Some (HandleError PersonKey ''I9''),
          \<lparr>content_box = [], image_list = [], all_media = Some [(''M4'', ''Photo'')]\<rparr>)"
proof -
  have n: "''I9'' \<noteq> []" by simp
  have u: "person_tbl sample_db ''I9'' = None" by (simp add: sample_db_def)
  have c: "clear_images showing = \<lparr>content_box = [], image_list = [], all_media = Some [(''M4'', ''Photo'')]\<rparr>"
    by (simp add: clear_images_def showing_def)
  from unresolved_person_fails [OF n u, of showing] n u c show ?thesis by simp
qed

section \<open>No active person\<close>

text \<open>
  C5. When there is no active person handle (\<^verbatim>\<open>None\<close>, or the empty string), \<^verbatim>\<open>main\<close>
  ends normally, without an error, and with an empty list of boxes; the container is
  empty too when it held just the boxes of the list.
\<close>

theorem absent_person_empty:
  "main d None g = (None, clear_images g)
   \<and> main d (Some []) g = (None, clear_images g)
   \<and> image_list (clear_images g) = []
   \<and> (content_box g = image_list g \<longrightarrow> content_box (clear_images g) = [])"
  using clear_images_shown [of g]
  by (auto simp add: main_absent main_empty image_list_clear_images)

theorem absent_person_empty_witness:
  "content_box showing = image_list showing
   \<and> main sample_db None showing
       = (None, \<lparr>content_box = [], image_list = [], all_media = Some [(''M4'', ''Photo'')]\<rparr>)"
proof -
  have i: "content_box showing = image_list showing" by (simp add: showing_def)
  have a: "all_media (clear_images showing) = Some [(''M4'', ''Photo'')]"
    by (simp add: clear_images_def showing_def)
  from absent_person_empty [of sample_db showing] i a show ?thesis
    by (cases "clear_images showing") simp
qed

section \<open>Dangling references\<close>



section \<open>Descriptions come from the database\<close>

text \<open>
  C10. An entry that \<^verbatim>\<open>process_media\<close> adds to the dictionary pairs a handle with the
  description of the media object that the handle resolves to. Each entry of a collected
  dictionary is therefore such a pair, and two collections over one database, for any two
  persons, never pair one handle with two descriptions.
\<close>

theorem description_from_database:
  "(\<forall>h s. (h, s) \<in> set (snd (process_media d refs am)) \<longrightarrow>
        (h, s) \<in> set am \<or> map_option description (media_tbl d h) = Some s)
   \<and> (\<forall>h s. (h, s) \<in> set (snd (collect d p)) \<longrightarrow> map_option description (media_tbl d h) = Some s)
   \<and> (\<forall>h s t. (h, s) \<in> set (snd (collect d p)) \<and> (h, t) \<in> set (snd (collect d q)) \<longrightarrow> s = t)"
proof -
  have a: "map_option description (media_tbl d h) = Some s" if "(h, s) \<in> set (snd (collect d r))" for h s r
    using consistent_collect that by (rule consistent_entry)
  have b: "s = t" if "(h, s) \<in> set (snd (collect d p))" and "(h, t) \<in> set (snd (collect d q))" for h s t
    using a [OF that(1)] a [OF that(2)] by simp
  show ?thesis using a b process_media_entries [of _ _ d refs am] by blast
qed

theorem description_from_database_witness:
  "(''M1'', ''Zebra'') \<in> set (snd (collect sample_db anna))
   \<and> (''M1'', ''Zebra'') \<in> set (snd (collect sample_db carl))
   \<and> map_option description (media_tbl sample_db ''M1'') = Some ''Zebra''
   \<and> (''M2'', ''Apple'') \<in> set (snd (process_media sample_db [mref ''M2''] [(''M1'', ''Old label'')]))
   \<and> (''M2'', ''Apple'') \<notin> set [(''M1'', ''Old label'')]
   \<and> map_option description (media_tbl sample_db ''M2'') = Some ''Apple''"
proof -
  have a: "(''M1'', ''Zebra'') \<in> set (snd (collect sample_db anna))"
    by (simp add: sample_simps run_simps)
  have c: "(''M1'', ''Zebra'') \<in> set (snd (collect sample_db carl))"
    by (simp add: sample_simps run_simps)
  have m: "(''M2'', ''Apple'') \<in> set (snd (process_media sample_db [mref ''M2''] [(''M1'', ''Old label'')]))"
    by (simp add: sample_simps run_simps)
  have n: "(''M2'', ''Apple'') \<notin> set [(''M1'', ''Old label'')]" by simp
  from description_from_database [of sample_db "[mref ''M2'']" "[(''M1'', ''Old label'')]" anna carl]
    a c m n show ?thesis by blast
qed

section \<open>Running again\<close>

lemma clear_images_idem: "clear_images (clear_images g) = clear_images g"
  by (simp add: clear_images_def)

lemma clear_images_cleared: "image_list g = [] \<Longrightarrow> clear_images g = g"
  by (simp add: clear_images_def)

lemma main_keeps_shown:
  assumes "content_box g = image_list g"
  shows "content_box (snd (main d a g)) = image_list (snd (main d a g))"
proof -
  have absent: ?thesis if "a = None \<or> a = Some []"
    using that assms by (auto simp: main_absent main_empty clear_images_shown)
  have present: ?thesis if a: "a = Some h" and h: "h \<noteq> []" for h
  proof (cases "person_tbl d h")
    case None
    with a h assms show ?thesis by (simp add: main_unresolved clear_images_shown)
  next
    case (Some p)
    obtain e am where c: "collect d p = (e, am)" by (cases "collect d p")
    show ?thesis
    proof (cases e)
      case (Some x)
      with c have "collect d p = (Some x, am)" by simp
      from main_fail [OF h \<open>person_tbl d h = Some p\<close> this] a assms show ?thesis
        by (simp add: clear_images_shown)
    next
      case None
      with c have "collect d p = (None, am)" by simp
      from main_run [OF h \<open>person_tbl d h = Some p\<close> this] a assms show ?thesis
        by (simp add: clear_images_shown)
    qed
  qed
  show ?thesis
  proof (cases a)
    case None
    then show ?thesis using absent by simp
  next
    case (Some h)
    then show ?thesis using absent present [of h] by (cases "h = []") simp_all
  qed
qed

text \<open>
  C8. From a gramplet whose container holds just the boxes of its list, as it does at
  initialization and again after every run, a second run with the same database and the
  same active person returns what the first run returned: the same outcome and the same
  state, hence the same boxes in the same order.
\<close>

theorem rerun_identical:
  assumes "content_box g = image_list g"
  shows "main d a (snd (main d a g)) = main d a g
         \<and> content_box (snd (main d a g)) = image_list (snd (main d a g))"
proof -
  have "main d a (snd (main d a g)) = main d a g"
  proof -
  have absent: "main d a (snd (main d a g)) = main d a g" if "a = None \<or> a = Some []"
    using that by (auto simp: main_absent main_empty clear_images_idem)
  have present: "main d (Some h) (snd (main d (Some h) g)) = main d (Some h) g" if h: "h \<noteq> []" for h
  proof (cases "person_tbl d h")
    case None
    with h show ?thesis by (simp add: main_unresolved clear_images_idem)
  next
    case (Some p)
    obtain e am where c: "collect d p = (e, am)" by (cases "collect d p")
    show ?thesis
    proof (cases e)
      case (Some x)
      with c have c': "collect d p = (Some x, am)" by simp
      have "clear_images ((clear_images g)\<lparr>all_media := Some am\<rparr>) = (clear_images g)\<lparr>all_media := Some am\<rparr>"
        by (rule clear_images_cleared) (simp add: image_list_clear_images)
      then show ?thesis
        by (simp add: main_fail [OF h \<open>person_tbl d h = Some p\<close> c'])
    next
      case None
      with c have c': "collect d p = (None, am)" by simp
      let ?B = "boxes d (media_list am)"
      let ?g1 = "\<lparr>content_box = ?B, image_list = ?B, all_media = Some am\<rparr>"
      have first: "main d (Some h) g = (None, ?g1)"
        using assms by (simp add: main_run [OF h \<open>person_tbl d h = Some p\<close> c'] clear_images_shown)
      have "main d (Some h) ?g1 = (None, ?g1)"
        by (simp add: main_run [OF h \<open>person_tbl d h = Some p\<close> c'] clear_images_shown)
      with first show ?thesis by simp
    qed
  qed
  show ?thesis
  proof (cases a)
    case None
    then show ?thesis using absent by simp
  next
    case (Some h)
    then show ?thesis using absent present [of h] by (cases "h = []") simp_all
  qed
  qed
  with main_keeps_shown [OF assms] show ?thesis by simp
qed

theorem rerun_identical_witness:
  "content_box showing = image_list showing
   \<and> main sample_db (Some ''I1'') (snd (main sample_db (Some ''I1'') showing))
       = main sample_db (Some ''I1'') showing
   \<and> map desc_label (image_list (snd (main sample_db (Some ''I1'') showing)))
       = [''Apple'', ''Mango'', ''Zebra'']"
proof -
  have i: "content_box showing = image_list showing" by (simp add: showing_def)
  have l: "map desc_label (image_list (snd (main sample_db (Some ''I1'') showing)))
       = [''Apple'', ''Mango'', ''Zebra'']"
    by (simp add: sample_simps run_simps)
  from rerun_identical [OF i, of sample_db "Some ''I1''"] i l show ?thesis by simp
qed

text \<open>
  C9. Two runs with the same database and the same active person, from any two gramplet
  states, end with the same outcome and the same list of boxes, and with the same container
  when each container held just the boxes of its list. When the person resolves, the
  dictionary left by either run is the one collected from the empty dictionary, whatever
  dictionary an earlier run had left.
\<close>

theorem output_from_person_and_database:
  "fst (main d a g1) = fst (main d a g2)
   \<and> image_list (snd (main d a g1)) = image_list (snd (main d a g2))
   \<and> (content_box g1 = image_list g1 \<and> content_box g2 = image_list g2 \<longrightarrow>
        content_box (snd (main d a g1)) = content_box (snd (main d a g2)))
   \<and> (\<forall>h p. a = Some h \<and> h \<noteq> [] \<and> person_tbl d h = Some p \<longrightarrow>
        all_media (snd (main d a g1)) = Some (snd (collect d p))
        \<and> all_media (snd (main d a g2)) = Some (snd (collect d p)))"
proof -
  have absent: ?thesis if "a = None \<or> a = Some []"
    using that clear_images_shown [of g1] clear_images_shown [of g2]
    by (auto simp: main_absent main_empty image_list_clear_images)
  have present: ?thesis if a: "a = Some h" and h: "h \<noteq> []" for h
  proof (cases "person_tbl d h")
    case None
    with a h clear_images_shown [of g1] clear_images_shown [of g2] show ?thesis
      by (auto simp: main_unresolved image_list_clear_images)
  next
    case (Some p)
    obtain e am where c: "collect d p = (e, am)" by (cases "collect d p")
    show ?thesis
    proof (cases e)
      case (Some x)
      with c have c': "collect d p = (Some x, am)" by simp
      show ?thesis
        using a h \<open>person_tbl d h = Some p\<close> c' clear_images_shown [of g1] clear_images_shown [of g2]
        by (auto simp: main_fail [OF h \<open>person_tbl d h = Some p\<close> c'] image_list_clear_images)
    next
      case None
      with c have c': "collect d p = (None, am)" by simp
      show ?thesis
        using a h \<open>person_tbl d h = Some p\<close> c' clear_images_shown [of g1] clear_images_shown [of g2]
        by (auto simp: main_run [OF h \<open>person_tbl d h = Some p\<close> c'] image_list_clear_images)
    qed
  qed
  show ?thesis
  proof (cases a)
    case None
    then show ?thesis using absent by simp
  next
    case (Some h)
    then show ?thesis using absent present [of h] by (cases "h = []") simp_all
  qed
qed

theorem output_from_person_and_database_witness:
  "content_box init = image_list init \<and> content_box showing = image_list showing
   \<and> ''I1'' \<noteq> [] \<and> person_tbl sample_db ''I1'' = Some anna
   \<and> all_media init \<noteq> all_media showing
   \<and> main sample_db (Some ''I1'') init = main sample_db (Some ''I1'') showing
   \<and> all_media (snd (main sample_db (Some ''I1'') showing)) = Some (snd (collect sample_db anna))"
proof -
  have i: "content_box init = image_list init" "content_box showing = image_list showing"
    "all_media init \<noteq> all_media showing"
    by (simp_all add: init_def showing_def)
  have p: "''I1'' \<noteq> []" "person_tbl sample_db ''I1'' = Some anna"
    by (simp_all add: sample_db_def)
  from output_from_person_and_database [of sample_db "Some ''I1''" init showing] i p
  have "fst (main sample_db (Some ''I1'') init) = fst (main sample_db (Some ''I1'') showing)"
    and "image_list (snd (main sample_db (Some ''I1'') init)) = image_list (snd (main sample_db (Some ''I1'') showing))"
    and "content_box (snd (main sample_db (Some ''I1'') init)) = content_box (snd (main sample_db (Some ''I1'') showing))"
    and "all_media (snd (main sample_db (Some ''I1'') init)) = Some (snd (collect sample_db anna))"
    and "all_media (snd (main sample_db (Some ''I1'') showing)) = Some (snd (collect sample_db anna))"
    by blast+
  then have "main sample_db (Some ''I1'') init = main sample_db (Some ''I1'') showing"
    and "all_media (snd (main sample_db (Some ''I1'') showing)) = Some (snd (collect sample_db anna))"
    by (simp_all add: prod_eq_iff gramplet.equality)
  with i p show ?thesis by simp
qed

section \<open>The order of the rules\<close>

lemma run_rules_rules: "run_rules (rules d p) [] = collect d p"
  by (simp add: rules_def collect_def traversal_def seq_def split: prod.splits option.splits)

lemma rules_behave: "f \<in> set (rules d p) \<Longrightarrow> \<exists>ok T. behaves d f ok T"
  unfolding rules_def
  by (auto intro: behaves_process_media behaves_process_citations
      behaves_process_alternate_names behaves_process_events behaves_process_families)

lemma behaves_outcome:
  assumes b: "behaves d f ok T" and c: "consistent d am"
  shows "consistent d (snd (f am))"
    and "fst (f am) = None \<longleftrightarrow> fst (f []) = None"
    and "fst (f am) = None \<Longrightarrow> dict_keys (snd (f am)) = dict_keys am \<union> dict_keys (snd (f []))"
proof -
  have r: "f am = (fst (f am), snd (f am))" and r0: "f [] = (fst (f []), snd (f []))" by simp_all
  note x = behavesD [OF b c r]
  note y = behavesD [OF b consistent_Nil r0]
  show "consistent d (snd (f am))" by (rule x(1))
  from x(4) y(4) show "fst (f am) = None \<longleftrightarrow> fst (f []) = None"
    by (auto split: option.splits)
  assume "fst (f am) = None"
  with x(4) y(4) have "ok" and "T \<subseteq> dict_keys (snd (f am))" and "T \<subseteq> dict_keys (snd (f []))"
    by (auto split: option.splits)
  moreover from y(3) have "dict_keys (snd (f [])) \<subseteq> T" by (simp add: dict_keys_def)
  moreover have "dict_keys am \<subseteq> dict_keys (snd (f am))" using x(2) by (rule prefix_keys)
  ultimately show "dict_keys (snd (f am)) = dict_keys am \<union> dict_keys (snd (f []))"
    using x(3) by blast
qed

lemma run_rules_outcome:
  assumes "\<forall>f \<in> set rs. \<exists>ok T. behaves d f ok T" and "consistent d am"
  shows "consistent d (snd (run_rules rs am))
    \<and> (fst (run_rules rs am) = None \<longleftrightarrow> (\<forall>f \<in> set rs. fst (f []) = None))
    \<and> (fst (run_rules rs am) = None \<longrightarrow>
         dict_keys (snd (run_rules rs am)) = dict_keys am \<union> (\<Union>f \<in> set rs. dict_keys (snd (f []))))"
  using assms
proof (induction rs arbitrary: am)
  case Nil
  then show ?case by simp
next
  case (Cons f rs)
  from Cons.prems(1) obtain ok T where b: "behaves d f ok T" by auto
  note o = behaves_outcome [OF b Cons.prems(2)]
  show ?case
  proof (cases "fst (f am)")
    case (Some e)
    then have "run_rules (f # rs) am = (Some e, snd (f am))"
      by (cases "f am") (simp add: seq_def)
    with o Some show ?thesis by auto
  next
    case None
    then have r: "run_rules (f # rs) am = run_rules rs (snd (f am))"
      by (cases "f am") (simp add: seq_def)
    from Cons.prems(1) have "\<forall>f \<in> set rs. \<exists>ok T. behaves d f ok T" by simp
    note ih = Cons.IH [OF this o(1)]
    from None o(2) have f0: "fst (f []) = None" by simp
    show ?thesis
      unfolding r using ih o(3) [OF None] f0 by auto
  qed
qed

lemma consistent_same_keys:
  assumes "consistent d a" and "consistent d b" and "dict_keys a = dict_keys b"
  shows "set a = set b"
proof -
  have "x \<in> set b'" if "x \<in> set a'" and "consistent d a'" and "consistent d b'"
    and "dict_keys a' = dict_keys b'" for x a' b'
  proof -
    obtain h s where x: "x = (h, s)" by (cases x)
    with that(1) have "h \<in> dict_keys a'" by (force simp: dict_keys_def)
    with that(4) obtain t where t: "(h, t) \<in> set b'" by (auto simp: dict_keys_def)
    from consistent_entry [OF that(2)] that(1) x
    have "map_option description (media_tbl d h) = Some s" by simp
    moreover from consistent_entry [OF that(3) t]
    have "map_option description (media_tbl d h) = Some t" .
    ultimately show ?thesis using t x by simp
  qed
  from this [OF _ assms(1,2,3)] this [OF _ assms(2,1) assms(3) [symmetric]]
  show ?thesis by blast
qed

lemma consistent_distinct: "consistent d am \<Longrightarrow> distinct am"
  by (simp add: consistent_def distinct_map)

lemma sorted_keys_same:
  assumes "mset a = mset b"
  shows "map f (sort_key f a) = map f (sort_key f b)"
proof -
  have "sort (map f b) = map f (sort_key f a)"
    by (rule properties_for_sort) (simp_all add: assms)
  moreover have "sort (map f b) = map f (sort_key f b)"
    by (rule properties_for_sort) simp_all
  ultimately show ?thesis by simp
qed

lemma filter_inj_single:
  assumes "distinct xs" and "k \<in> set xs" and "inj_on f (set xs)"
  shows "filter (\<lambda>x. f k = f x) xs = [k]"
proof -
  have "filter (\<lambda>x. f k = f x) xs = filter (\<lambda>x. k = x) xs"
    using assms(2,3) by (intro filter_cong refl) (auto dest: inj_onD)
  also have "\<dots> = [k]"
    using assms(1,2) by (induction xs) (auto simp: filter_empty_conv)
  finally show ?thesis .
qed

lemma sort_key_same:
  assumes "distinct a" and "distinct b" and "set a = set b" and "inj_on f (set b)"
  shows "sort_key f a = sort_key f b"
proof (rule properties_for_sort_key)
  from assms(1,2,3) have m: "mset a = mset b" by (simp add: set_eq_iff_mset_eq_distinct)
  then show "mset (sort_key f b) = mset a" by simp
  show "sorted (map f (sort_key f b))" by simp
  fix k assume "k \<in> set (sort_key f b)"
  then have k: "k \<in> set b" by simp
  have "filter (\<lambda>x. f k = f x) (sort_key f b) = filter (\<lambda>x. f x = f k) (sort_key f b)"
    by (rule filter_cong) auto
  also have "\<dots> = filter (\<lambda>x. f x = f k) b" by (rule sort_key_stable)
  also have "\<dots> = filter (\<lambda>x. f k = f x) b" by (rule filter_cong) auto
  also have "\<dots> = [k]" using assms(2) k assms(4) by (rule filter_inj_single)
  also have "\<dots> = filter (\<lambda>x. f k = f x) a"
    using assms(1,3,4) k by (simp add: filter_inj_single)
  finally show "filter (\<lambda>x. f k = f x) (sort_key f b) = filter (\<lambda>x. f k = f x) a" .
qed

text \<open>
  C6, as stated, does not hold: Bert has two pictures with the same description, one of his
  own and one through his family. The rules in the order of \<^verbatim>\<open>main\<close> list the first before
  the second; the same rules in reverse order list the second before the first.
\<close>

theorem permuted_rules_counterexample:
  "mset (rev (rules sample_db bert)) = mset (rules sample_db bert)
   \<and> run_rules (rules sample_db bert) [] = collect sample_db bert
   \<and> media_list (snd (collect sample_db bert)) = [(''M4'', ''Photo''), (''M5'', ''Photo'')]
   \<and> media_list (snd (run_rules (rev (rules sample_db bert)) [])) = [(''M5'', ''Photo''), (''M4'', ''Photo'')]"
proof -
  have a: "mset (rev (rules sample_db bert)) = mset (rules sample_db bert)" by simp
  have b: "run_rules (rules sample_db bert) [] = collect sample_db bert" by (rule run_rules_rules)
  have c: "media_list (snd (collect sample_db bert)) = [(''M4'', ''Photo''), (''M5'', ''Photo'')]"
    by (simp add: sample_simps run_simps)
  have d: "media_list (snd (run_rules (rev (rules sample_db bert)) [])) = [(''M5'', ''Photo''), (''M4'', ''Photo'')]"
    by (simp add: sample_simps run_simps)
  from a b c d show ?thesis by blast
qed

text \<open>
  C6, amended. Applying the six rules in any permuted order ends normally exactly when the
  order of \<^verbatim>\<open>main\<close> does, and then collects the same set of pairs of handle and description
  and gives the same sorted sequence of descriptions. The sorted list of pairs itself is the
  same whenever no two collected pairs have the same description.
\<close>

theorem permuted_rules_same_pictures:
  assumes "mset rs = mset (rules d p)"
  shows "(fst (run_rules rs []) = None \<longleftrightarrow> fst (collect d p) = None)
     \<and> (fst (collect d p) = None \<longrightarrow>
          set (snd (run_rules rs [])) = set (snd (collect d p))
          \<and> map snd (media_list (snd (run_rules rs []))) = map snd (media_list (snd (collect d p)))
          \<and> (inj_on snd (set (snd (collect d p))) \<longrightarrow>
               media_list (snd (run_rules rs [])) = media_list (snd (collect d p))))"
proof -
  from assms have s: "set rs = set (rules d p)" by (rule mset_eq_setD)
  have b1: "\<forall>f \<in> set rs. \<exists>ok T. behaves d f ok T" using s rules_behave by blast
  have b2: "\<forall>f \<in> set (rules d p). \<exists>ok T. behaves d f ok T" using rules_behave by blast
  note o1 = run_rules_outcome [OF b1 consistent_Nil]
  note o2 = run_rules_outcome [OF b2 consistent_Nil, unfolded run_rules_rules]
  let ?a = "snd (run_rules rs [])" and ?b = "snd (collect d p)"
  from o1 o2 s have ok: "fst (run_rules rs []) = None \<longleftrightarrow> fst (collect d p) = None" by simp
  have rest: "set ?a = set ?b
          \<and> map snd (media_list ?a) = map snd (media_list ?b)
          \<and> (inj_on snd (set ?b) \<longrightarrow> media_list ?a = media_list ?b)"
    if f: "fst (collect d p) = None"
  proof -
    from f ok o1 o2 s have "dict_keys ?a = dict_keys ?b" by simp
    with o1 o2 have e: "set ?a = set ?b" by (intro consistent_same_keys [of d]) simp_all
    from o1 o2 have di: "distinct ?a" "distinct ?b" by (auto intro: consistent_distinct)
    with e have "mset ?a = mset ?b" by (simp add: set_eq_iff_mset_eq_distinct)
    then have "map snd (media_list ?a) = map snd (media_list ?b)"
      unfolding media_list_def by (rule sorted_keys_same)
    moreover have "media_list ?a = media_list ?b" if "inj_on snd (set ?b)"
      unfolding media_list_def using di e that by (rule sort_key_same)
    ultimately show ?thesis using e by simp
  qed
  from ok rest show ?thesis by simp
qed

theorem permuted_rules_same_pictures_witness:
  "mset (rev (rules sample_db anna)) = mset (rules sample_db anna)
   \<and> fst (collect sample_db anna) = None
   \<and> inj_on snd (set (snd (collect sample_db anna)))
   \<and> snd (run_rules (rev (rules sample_db anna)) []) = [(''M1'', ''Zebra''), (''M3'', ''Mango''), (''M2'', ''Apple'')]
   \<and> snd (collect sample_db anna) = [(''M1'', ''Zebra''), (''M2'', ''Apple''), (''M3'', ''Mango'')]
   \<and> media_list (snd (run_rules (rev (rules sample_db anna)) [])) = media_list (snd (collect sample_db anna))"
proof -
  have a: "mset (rev (rules sample_db anna)) = mset (rules sample_db anna)" by simp
  have c: "collect sample_db anna = (None, [(''M1'', ''Zebra''), (''M2'', ''Apple''), (''M3'', ''Mango'')])"
    by (simp add: sample_simps run_simps)
  have r: "snd (run_rules (rev (rules sample_db anna)) []) = [(''M1'', ''Zebra''), (''M3'', ''Mango''), (''M2'', ''Apple'')]"
    by (simp add: sample_simps run_simps)
  have i: "inj_on snd (set (snd (collect sample_db anna)))" by (simp add: c)
  from permuted_rules_same_pictures [OF a] c r i show ?thesis using a by simp
qed

end
